theory Spec2Isabelle
  imports Main "HOL-Library.Sublist"
begin

section \<open>Byte slices and the two library calls of the decoder\<close>

text \<open>
  A Go \<^verbatim>\<open>[]byte\<close> is a list of 8-bit characters. None of the slices of the decoder is
  written through after it has been shared, so aliasing plays no role and values suffice.
\<close>

type_synonym bytes = "char list"

text \<open>
  \<^verbatim>\<open>bytes.Index(s, sep)\<close>: the index of the first instance of \<open>sep\<close> in \<open>s\<close>, or -1
  (here \<open>None\<close>) when there is none.
\<close>

fun Index :: "bytes \<Rightarrow> bytes \<Rightarrow> nat option" where
  "Index [] sep = (if sep = [] then Some 0 else None)"
| "Index (c # cs) sep =
     (if prefix sep (c # cs) then Some 0 else map_option Suc (Index cs sep))"

text \<open>
  \<^verbatim>\<open>bytes.Split(s, sep)\<close> for a non-empty separator: cut at the first instance, continue
  behind it, and end with what is left (Go's \<^verbatim>\<open>genSplit\<close> with no limit). The decoder only
  passes the five-byte separator; for the empty separator Go explodes the slice into
  UTF-8 sequences, which is written here for single bytes.
\<close>

function Split :: "bytes \<Rightarrow> bytes \<Rightarrow> bytes list" where
  "Split s sep =
     (if sep = [] then map (\<lambda>c. [c]) s
      else case Index s sep of
             None \<Rightarrow> [s]
           | Some m \<Rightarrow> take m s # Split (drop (m + length sep) s) sep)"
  by pat_completeness auto

lemma Index_le: "Index s sep = Some m \<Longrightarrow> m + length sep \<le> length s"
proof (induction s arbitrary: m)
  case Nil
  then show ?case by (simp split: if_splits)
next
  case (Cons c cs)
  show ?case
  proof (cases "prefix sep (c # cs)")
    case True
    with Cons.prems have "m = 0" by simp
    with True prefix_length_le [of sep "c # cs"] show ?thesis by simp
  next
    case False
    with Cons.prems obtain k where "Index cs sep = Some k" "m = Suc k" by auto
    with Cons.IH show ?thesis by simp
  qed
qed

termination Split
proof (relation "measure (\<lambda>(s, sep). length s)")
  show "wf (measure (\<lambda>(s, sep). length s))" by simp
next
  fix s sep :: bytes and m :: nat
  assume ne: "sep \<noteq> []" and ix: "Index s sep = Some m"
  from ix have le: "m + length sep \<le> length s" by (rule Index_le)
  from ne obtain c cs where "sep = c # cs" by (cases sep) auto
  then have "0 < length sep" by simp
  with le have "length s - (m + length sep) < length s" by arith
  then show "((drop (m + length sep) s, sep), (s, sep)) \<in> measure (\<lambda>(s, sep). length s)"
    by simp
qed

declare Split.simps [simp del]

section \<open>The library call \<^verbatim>\<open>json.Compact\<close>\<close>

text \<open>
  The decoder is stated over any compaction function. For evaluating it on concrete
  streams, \<^verbatim>\<open>json.Compact\<close> of Go's \<^verbatim>\<open>encoding/json\<close> is written out as the library
  has it: a scanner, one step function per state, a stack of parse states, and a loop
  that keeps every byte the scanner does not report as skipped space.
\<close>

datatype scan =
    scanContinue | scanBeginLiteral | scanBeginObject | scanObjectKey | scanObjectValue
  | scanEndObject | scanBeginArray | scanArrayValue | scanEndArray
  | scanSkipSpace | scanEnd | scanError

datatype parse_state = parseObjectKey | parseObjectValue | parseArrayValue

datatype step_fn =
    BeginValueOrEmpty | BeginValue | BeginStringOrEmpty | BeginString | EndValue | EndTop
  | InString | InStringEsc | InStringEscU | InStringEscU1 | InStringEscU12 | InStringEscU123
  | Neg | Num1 | Num0 | Dot | Dot0 | Exp | ESign | E0
  | LitT | LitTr | LitTru | LitF | LitFa | LitFal | LitFals | LitN | LitNu | LitNul
  | StError

text \<open>The parse-state stack has its innermost state first (Go appends it last).\<close>

record scanner =
  step :: step_fn
  endTop :: bool
  parseState :: "parse_state list"
  err :: bool

definition maxNestingDepth :: nat where
  "maxNestingDepth = 10000"

definition newScanner :: scanner where
  "newScanner = \<lparr>step = BeginValue, endTop = False, parseState = [], err = False\<rparr>"

definition isSpace :: "char \<Rightarrow> bool" where
  "isSpace c = (c = CHR '' '' \<or> c = CHR 0x09 \<or> c = CHR 0x0D \<or> c = CHR 0x0A)"

definition isDigit :: "char \<Rightarrow> bool" where
  "isDigit c = (c \<in> set ''0123456789'')"

definition isHex :: "char \<Rightarrow> bool" where
  "isHex c = (c \<in> set ''0123456789abcdefABCDEF'')"

definition scan_error :: "scanner \<Rightarrow> scan \<times> scanner" where
  "scan_error s = (scanError, s\<lparr>step := StError, err := True\<rparr>)"

definition continue_in :: "step_fn \<Rightarrow> scanner \<Rightarrow> scan \<times> scanner" where
  "continue_in f s = (scanContinue, s\<lparr>step := f\<rparr>)"

definition pushParseState :: "scanner \<Rightarrow> parse_state \<Rightarrow> scan \<Rightarrow> scan \<times> scanner" where
  "pushParseState s newParseState successState =
     (let s1 = s\<lparr>parseState := newParseState # parseState s\<rparr>
      in if length (parseState s1) \<le> maxNestingDepth then (successState, s1)
         else scan_error s1)"

definition popParseState :: "scanner \<Rightarrow> scanner" where
  "popParseState s =
     (let ps = tl (parseState s)
      in if ps = [] then s\<lparr>parseState := ps, step := EndTop, endTop := True\<rparr>
         else s\<lparr>parseState := ps, step := EndValue\<rparr>)"

definition stateEndTop :: "scanner \<Rightarrow> char \<Rightarrow> scan \<times> scanner" where
  "stateEndTop s c = (if \<not> isSpace c then (scanEnd, snd (scan_error s)) else (scanEnd, s))"

definition stateEndValue :: "scanner \<Rightarrow> char \<Rightarrow> scan \<times> scanner" where
  "stateEndValue s c =
     (case parseState s of
        [] \<Rightarrow> stateEndTop (s\<lparr>step := EndTop, endTop := True\<rparr>) c
      | ps # rest \<Rightarrow>
          if isSpace c then (scanSkipSpace, s\<lparr>step := EndValue\<rparr>)
          else (case ps of
                  parseObjectKey \<Rightarrow>
                    if c = CHR '':''
                    then (scanObjectKey, s\<lparr>parseState := parseObjectValue # rest, step := BeginValue\<rparr>)
                    else scan_error s
                | parseObjectValue \<Rightarrow>
                    if c = CHR '',''
                    then (scanObjectValue, s\<lparr>parseState := parseObjectKey # rest, step := BeginString\<rparr>)
                    else if c = CHR ''}'' then (scanEndObject, popParseState s)
                    else scan_error s
                | parseArrayValue \<Rightarrow>
                    if c = CHR '',''
                    then (scanArrayValue, s\<lparr>step := BeginValue\<rparr>)
                    else if c = CHR '']'' then (scanEndArray, popParseState s)
                    else scan_error s))"

definition stateBeginValue :: "scanner \<Rightarrow> char \<Rightarrow> scan \<times> scanner" where
  "stateBeginValue s c =
     (if isSpace c then (scanSkipSpace, s)
      else if c = CHR ''{''
        then pushParseState (s\<lparr>step := BeginStringOrEmpty\<rparr>) parseObjectKey scanBeginObject
      else if c = CHR ''[''
        then pushParseState (s\<lparr>step := BeginValueOrEmpty\<rparr>) parseArrayValue scanBeginArray
      else if c = CHR 0x22 then (scanBeginLiteral, s\<lparr>step := InString\<rparr>)
      else if c = CHR ''-'' then (scanBeginLiteral, s\<lparr>step := Neg\<rparr>)
      else if c = CHR ''0'' then (scanBeginLiteral, s\<lparr>step := Num0\<rparr>)
      else if c = CHR ''t'' then (scanBeginLiteral, s\<lparr>step := LitT\<rparr>)
      else if c = CHR ''f'' then (scanBeginLiteral, s\<lparr>step := LitF\<rparr>)
      else if c = CHR ''n'' then (scanBeginLiteral, s\<lparr>step := LitN\<rparr>)
      else if c \<in> set ''123456789'' then (scanBeginLiteral, s\<lparr>step := Num1\<rparr>)
      else scan_error s)"

definition stateBeginValueOrEmpty :: "scanner \<Rightarrow> char \<Rightarrow> scan \<times> scanner" where
  "stateBeginValueOrEmpty s c =
     (if isSpace c then (scanSkipSpace, s)
      else if c = CHR '']'' then stateEndValue s c
      else stateBeginValue s c)"

definition stateBeginString :: "scanner \<Rightarrow> char \<Rightarrow> scan \<times> scanner" where
  "stateBeginString s c =
     (if isSpace c then (scanSkipSpace, s)
      else if c = CHR 0x22 then (scanBeginLiteral, s\<lparr>step := InString\<rparr>)
      else scan_error s)"

definition stateBeginStringOrEmpty :: "scanner \<Rightarrow> char \<Rightarrow> scan \<times> scanner" where
  "stateBeginStringOrEmpty s c =
     (if isSpace c then (scanSkipSpace, s)
      else if c = CHR ''}''
        then stateEndValue (s\<lparr>parseState := parseObjectValue # tl (parseState s)\<rparr>) c
      else stateBeginString s c)"

definition stateInString :: "scanner \<Rightarrow> char \<Rightarrow> scan \<times> scanner" where
  "stateInString s c =
     (if c = CHR 0x22 then continue_in EndValue s
      else if c = CHR 0x5C then continue_in InStringEsc s
      else if (of_char c :: nat) < 32 then scan_error s
      else (scanContinue, s))"

definition stateInStringEsc :: "scanner \<Rightarrow> char \<Rightarrow> scan \<times> scanner" where
  "stateInStringEsc s c =
     (if c \<in> set [CHR ''b'', CHR ''f'', CHR ''n'', CHR ''r'', CHR ''t'', CHR 0x5C, CHR ''/'', CHR 0x22]
      then continue_in InString s
      else if c = CHR ''u'' then continue_in InStringEscU s
      else scan_error s)"

definition stateNum0 :: "scanner \<Rightarrow> char \<Rightarrow> scan \<times> scanner" where
  "stateNum0 s c =
     (if c = CHR ''.'' then continue_in Dot s
      else if c = CHR ''e'' \<or> c = CHR ''E'' then continue_in Exp s
      else stateEndValue s c)"

definition stateNum1 :: "scanner \<Rightarrow> char \<Rightarrow> scan \<times> scanner" where
  "stateNum1 s c = (if isDigit c then continue_in Num1 s else stateNum0 s c)"

definition stateNeg :: "scanner \<Rightarrow> char \<Rightarrow> scan \<times> scanner" where
  "stateNeg s c =
     (if c = CHR ''0'' then continue_in Num0 s
      else if c \<in> set ''123456789'' then continue_in Num1 s
      else scan_error s)"

definition stateDot0 :: "scanner \<Rightarrow> char \<Rightarrow> scan \<times> scanner" where
  "stateDot0 s c =
     (if isDigit c then (scanContinue, s)
      else if c = CHR ''e'' \<or> c = CHR ''E'' then continue_in Exp s
      else stateEndValue s c)"

definition stateESign :: "scanner \<Rightarrow> char \<Rightarrow> scan \<times> scanner" where
  "stateESign s c = (if isDigit c then continue_in E0 s else scan_error s)"

definition stateE :: "scanner \<Rightarrow> char \<Rightarrow> scan \<times> scanner" where
  "stateE s c =
     (if c = CHR ''+'' \<or> c = CHR ''-'' then continue_in ESign s else stateESign s c)"

definition stateE0 :: "scanner \<Rightarrow> char \<Rightarrow> scan \<times> scanner" where
  "stateE0 s c = (if isDigit c then (scanContinue, s) else stateEndValue s c)"

text \<open>A state that accepts one byte only (the letters of \<^verbatim>\<open>true\<close>, \<^verbatim>\<open>false\<close>, \<^verbatim>\<open>null\<close>).\<close>

definition expect :: "char \<Rightarrow> step_fn \<Rightarrow> scanner \<Rightarrow> char \<Rightarrow> scan \<times> scanner" where
  "expect x f s c = (if c = x then continue_in f s else scan_error s)"

definition expectHex :: "step_fn \<Rightarrow> scanner \<Rightarrow> char \<Rightarrow> scan \<times> scanner" where
  "expectHex f s c = (if isHex c then continue_in f s else scan_error s)"

text \<open>\<^verbatim>\<open>s.step(s, c)\<close>: the call through the function value held in the scanner.\<close>

definition scan_step :: "scanner \<Rightarrow> char \<Rightarrow> scan \<times> scanner" where
  "scan_step s c =
     (case step s of
        BeginValueOrEmpty \<Rightarrow> stateBeginValueOrEmpty s c
      | BeginValue \<Rightarrow> stateBeginValue s c
      | BeginStringOrEmpty \<Rightarrow> stateBeginStringOrEmpty s c
      | BeginString \<Rightarrow> stateBeginString s c
      | EndValue \<Rightarrow> stateEndValue s c
      | EndTop \<Rightarrow> stateEndTop s c
      | InString \<Rightarrow> stateInString s c
      | InStringEsc \<Rightarrow> stateInStringEsc s c
      | InStringEscU \<Rightarrow> expectHex InStringEscU1 s c
      | InStringEscU1 \<Rightarrow> expectHex InStringEscU12 s c
      | InStringEscU12 \<Rightarrow> expectHex InStringEscU123 s c
      | InStringEscU123 \<Rightarrow> expectHex InString s c
      | Neg \<Rightarrow> stateNeg s c
      | Num1 \<Rightarrow> stateNum1 s c
      | Num0 \<Rightarrow> stateNum0 s c
      | Dot \<Rightarrow> (if isDigit c then continue_in Dot0 s else scan_error s)
      | Dot0 \<Rightarrow> stateDot0 s c
      | Exp \<Rightarrow> stateE s c
      | ESign \<Rightarrow> stateESign s c
      | E0 \<Rightarrow> stateE0 s c
      | LitT \<Rightarrow> expect (CHR ''r'') LitTr s c
      | LitTr \<Rightarrow> expect (CHR ''u'') LitTru s c
      | LitTru \<Rightarrow> expect (CHR ''e'') EndValue s c
      | LitF \<Rightarrow> expect (CHR ''a'') LitFa s c
      | LitFa \<Rightarrow> expect (CHR ''l'') LitFal s c
      | LitFal \<Rightarrow> expect (CHR ''s'') LitFals s c
      | LitFals \<Rightarrow> expect (CHR ''e'') EndValue s c
      | LitN \<Rightarrow> expect (CHR ''u'') LitNu s c
      | LitNu \<Rightarrow> expect (CHR ''l'') LitNul s c
      | LitNul \<Rightarrow> expect (CHR ''l'') EndValue s c
      | StError \<Rightarrow> (scanError, s))"

text \<open>\<^verbatim>\<open>scan.eof()\<close>: the input is over; a value still open is an error.\<close>

definition eof :: "scanner \<Rightarrow> scan" where
  "eof s =
     (if err s then scanError
      else if endTop s then scanEnd
      else if endTop (snd (scan_step s (CHR '' ''))) then scanEnd
      else scanError)"

text \<open>
  The loop of \<^verbatim>\<open>compact\<close> without escaping: a byte whose scan code is
  \<^verbatim>\<open>scanSkipSpace\<close> or \<^verbatim>\<open>scanEnd\<close> is left out, \<^verbatim>\<open>scanError\<close> leaves the loop, and
  the check of \<^verbatim>\<open>eof\<close> decides between the error and the output.
\<close>

fun compact_loop :: "scanner \<Rightarrow> bytes \<Rightarrow> bytes option" where
  "compact_loop s [] = (if eof s = scanError then None else Some [])"
| "compact_loop s (c # cs) =
     (case scan_step s c of
        (v, s1) \<Rightarrow>
          if v = scanError then (if eof s1 = scanError then None else Some (c # cs))
          else if v = scanSkipSpace \<or> v = scanEnd then compact_loop s1 cs
          else map_option ((#) c) (compact_loop s1 cs))"

definition Compact :: "bytes \<Rightarrow> bytes option" where
  "Compact src = compact_loop newScanner src"

section \<open>The producer's output stream\<close>

text \<open>
  One call \<^verbatim>\<open>r.Read(b)\<close> returns a count \<open>n\<close> and an error; the \<open>n\<close> bytes are
  \<^verbatim>\<open>b[:n]\<close>. A reader is the script of the results its calls return, in order. When the
  script is used up the pipe is at its end and every further call returns \<^verbatim>\<open>(0, io.EOF)\<close>.
  A call of \<^verbatim>\<open>decode\<close> that returns has made finitely many reads, so every returning call
  is the call on the script of the reads it made.
\<close>

datatype io_error = EOF | ReadFailed

type_synonym read_result = "bytes \<times> io_error option"

type_synonym reader = "read_result list"

section \<open>The decoder\<close>

datatype error = ReadError io_error | SyntaxError

text \<open>The package-level variables \<^verbatim>\<open>buf\<close> and \<^verbatim>\<open>first\<close>.\<close>

record decoder =
  buf :: bytes
  first :: bool

definition init :: decoder where
  "init = \<lparr>buf = [], first = True\<rparr>"

text \<open>\<^verbatim>\<open>READ_PERIOD = time.Second\<close>, in nanoseconds, as the 64-bit \<^verbatim>\<open>time.Duration\<close> counts
  (the sums of the model stay far below its range).\<close>

definition READ_PERIOD :: int where
  "READ_PERIOD = 1000000000"

definition PERIOD :: int where
  "PERIOD = 1000000000"

definition separator :: bytes where
  "separator = [CHR 0x0A, CHR ''}'', CHR '','', CHR ''{'', CHR 0x0A]"

text \<open>
  The first loop of \<^verbatim>\<open>decode\<close> (run while \<^verbatim>\<open>first\<close> holds): read until the buffer
  has three bytes, drop them and clear the flag. The last component counts the time
  slept.
\<close>

fun preamble_loop :: "decoder \<Rightarrow> reader \<Rightarrow> (io_error + unit) \<times> decoder \<times> reader \<times> int" where
  "preamble_loop st [] = (Inl EOF, st, [], 0)"
| "preamble_loop st ((bs, Some e) # r) = (Inl e, st, r, 0)"
| "preamble_loop st ((bs, None) # r) =
     (let st1 = (if length bs > 0 then st\<lparr>buf := buf st @ bs\<rparr> else st)
      in if length (buf st1) \<ge> 3
         then (Inr (), st1\<lparr>buf := drop 3 (buf st1), first := False\<rparr>, r, 0)
         else (case preamble_loop st1 r of
                 (res, st2, r2, t) \<Rightarrow> (res, st2, r2, READ_PERIOD + t)))"

text \<open>
  \<^verbatim>\<open>entry.Entry\<close>: timestamp, source address (empty for \<^verbatim>\<open>nil\<close>), tag and payload.
  The decoder fills in \<open>Data\<close> only and leaves the zero values elsewhere.
\<close>

record entry =
  TS :: int
  SRC :: bytes
  Tag :: nat
  Data :: bytes

definition new_entry :: "bytes \<Rightarrow> entry" where
  "new_entry d = \<lparr>TS = 0, SRC = [], Tag = 0, Data = d\<rparr>"

text \<open>
  The inner loop over the fragments but the last: wrap in braces, compact, collect.
  \<open>compact\<close> is \<^verbatim>\<open>json.Compact\<close>, \<open>None\<close> its error.
\<close>

fun consume :: "(bytes \<Rightarrow> bytes option) \<Rightarrow> bytes list \<Rightarrow> entry list option" where
  "consume compact [] = Some []"
| "consume compact (f # fs) =
     (case compact (CHR ''{'' # f @ [CHR ''}'']) of
        None \<Rightarrow> None
      | Some d \<Rightarrow>
          (case consume compact fs of
             None \<Rightarrow> None
           | Some ents \<Rightarrow> Some (new_entry d # ents)))"

text \<open>The second loop of \<^verbatim>\<open>decode\<close>: read, append, split, and go on reading until
  the split has more than one piece.\<close>

fun records_loop ::
  "(bytes \<Rightarrow> bytes option) \<Rightarrow> decoder \<Rightarrow> reader \<Rightarrow> (error + entry list) \<times> decoder \<times> reader \<times> int"
where
  "records_loop compact st [] = (Inl (ReadError EOF), st, [], 0)"
| "records_loop compact st ((bs, Some e) # r) = (Inl (ReadError e), st, r, 0)"
| "records_loop compact st ((bs, None) # r) =
     (let st1 = st\<lparr>buf := buf st @ bs\<rparr>;
          e = Split (buf st1) separator
      in if length e \<le> 1
         then (case records_loop compact st1 r of
                 (res, st2, r2, t) \<Rightarrow> (res, st2, r2, READ_PERIOD + t))
         else (case consume compact (butlast e) of
                 None \<Rightarrow> (Inl SyntaxError, st1, r, 0)
               | Some ents \<Rightarrow> (Inr ents, st1\<lparr>buf := last e\<rparr>, r, 0)))"

definition decode ::
  "(bytes \<Rightarrow> bytes option) \<Rightarrow> decoder \<Rightarrow> reader \<Rightarrow> (error + entry list) \<times> decoder \<times> reader \<times> int"
where
  "decode compact st r =
     (if first st
      then (case preamble_loop st r of
              (Inl e, st1, r1, t) \<Rightarrow> (Inl (ReadError e), st1, r1, t)
            | (Inr u, st1, r1, t) \<Rightarrow>
                (case records_loop compact st1 r1 of
                   (res, st2, r2, t2) \<Rightarrow> (res, st2, r2, t + t2)))
      else records_loop compact st r)"


section \<open>The supervisor\<close>

text \<open>
  What \<^verbatim>\<open>run\<close> meets outside itself, one value per call: the outcome of each launch
  (\<^verbatim>\<open>cmd.StdoutPipe\<close> fails, \<^verbatim>\<open>cmd.Start\<close> fails, or the process runs and its pipe
  delivers the given reads), the result of the \<open>k\<close>-th \<^verbatim>\<open>WriteBatchContext\<close> and the
  \<open>k\<close>-th reading of \<^verbatim>\<open>entry.Now\<close>.
\<close>

datatype launch = PipeFails | StartFails | Starts reader

datatype write_result = Written | Canceled | WriteFailed

record env =
  compact :: "bytes \<Rightarrow> bytes option"
  sink :: "nat \<Rightarrow> write_result"
  now :: "nat \<Rightarrow> int"
  tag :: nat
  src :: bytes

text \<open>The state that lives across the iterations: the decoder's two globals and the
  counts of batches written and clock readings taken.\<close>

record supervisor =
  dec :: decoder
  writes :: nat
  ticks :: nat

datatype logmsg = FailedStart | FailedDecode error | SendingMessage

datatype event =
    Launch | Logged logmsg | Slept int | Decode | WriteBatch "entry list" | Kill | Fatal

text \<open>
  How the loop is left: \<^verbatim>\<open>return\<close> on cancellation; \<^verbatim>\<open>lg.Fatal\<close>, which logs and ends
  the process (in \<^verbatim>\<open>main\<close> the code after a call of it relies on that); or not at all, the
  script of launches being used up with the loop still turning.
\<close>

datatype outcome = Returned | Exited | Running

text \<open>The loop \<^verbatim>\<open>for _, v := range ents\<close>: every entry gets the source, a fresh reading
  of the clock and the tag.\<close>

fun enrich :: "env \<Rightarrow> nat \<Rightarrow> entry list \<Rightarrow> entry list" where
  "enrich E k [] = []"
| "enrich E k (v # vs) = v\<lparr>SRC := src E, TS := now E k, Tag := tag E\<rparr> # enrich E (Suc k) vs"

lemma preamble_loop_length:
  "preamble_loop st r = (res, st1, r1, t) \<Longrightarrow> length r1 \<le> length r"
proof (induction st r arbitrary: res st1 r1 t rule: preamble_loop.induct)
  case (1 st)
  then show ?case by simp
next
  case (2 st bs e r)
  then show ?case by simp
next
  case (3 st bs r)
  then show ?case
    by (fastforce simp: Let_def split: if_splits prod.splits)
qed

lemma records_loop_length:
  "records_loop c st r = (Inr ents, st1, r1, t) \<Longrightarrow> length r1 < length r"
proof (induction c st r arbitrary: ents st1 r1 t rule: records_loop.induct)
  case (1 c st)
  then show ?case by simp
next
  case (2 c st bs e r)
  then show ?case by simp
next
  case (3 c st bs r)
  then show ?case
    by (fastforce simp: Let_def split: if_splits prod.splits option.splits)
qed

lemma decode_length:
  assumes "decode c st r = (Inr ents, st1, r1, t)"
  shows "length r1 < length r"
proof (cases "first st")
  case False
  with assms show ?thesis by (simp add: decode_def records_loop_length)
next
  case True
  obtain res0 st0 r0 t0 where p: "preamble_loop st r = (res0, st0, r0, t0)"
    by (cases "preamble_loop st r") auto
  with True assms obtain u t2 where "res0 = Inr u"
    and "records_loop c st0 r0 = (Inr ents, st1, r1, t2)"
    by (auto simp: decode_def split: sum.splits prod.splits)
  then have "length r1 < length r0" by (simp add: records_loop_length)
  with preamble_loop_length [OF p] show ?thesis by simp
qed

text \<open>
  The inner \<^verbatim>\<open>for\<close> of \<^verbatim>\<open>run\<close>: decode, enrich, write; \<^verbatim>\<open>break\<close> on a decode error
  (\<open>False\<close>), \<^verbatim>\<open>return\<close> on cancellation (\<open>True\<close>).
\<close>

function stream :: "env \<Rightarrow> supervisor \<Rightarrow> reader \<Rightarrow> bool \<times> event list \<times> supervisor" where
  "stream E s r =
     (case decode (compact E) (dec s) r of
        (Inl e, st1, r1, t) \<Rightarrow> (False, [Decode, Logged (FailedDecode e)], s\<lparr>dec := st1\<rparr>)
      | (Inr ents, st1, r1, t) \<Rightarrow>
          (let batch = enrich E (ticks s) ents;
               s1 = s\<lparr>dec := st1, writes := Suc (writes s), ticks := ticks s + length ents\<rparr>
           in case sink E (writes s) of
                Canceled \<Rightarrow> (True, [Decode, WriteBatch batch], s1)
              | Written \<Rightarrow>
                  (case stream E s1 r1 of
                     (ret, evs, s2) \<Rightarrow> (ret, Decode # WriteBatch batch # evs, s2))
              | WriteFailed \<Rightarrow>
                  (case stream E s1 r1 of
                     (ret, evs, s2) \<Rightarrow>
                       (ret, Decode # WriteBatch batch # Logged SendingMessage # evs, s2))))"
  by pat_completeness auto
termination
proof (relation "measure (\<lambda>(E, s, r). length r)")
  show "wf (measure (\<lambda>(E, s, r). length r))" by simp
next
  fix E s r x1 x2 x2a y x1a x2b x2c x2e xb
  assume "(x1, x2) = decode (compact E) (dec s) r" "(x1a, x2a) = x2" "(x2b, x2c) = x2a"
    "x1 = Inr y"
  then have "decode (compact E) (dec s) r = (Inr y, x1a, x2b, x2c)" by simp
  then have "length x2b < length r" by (rule decode_length)
  then show "((E, xb, x2b), E, s, r) \<in> measure (\<lambda>(E, s, r). length r)" by simp
next
  fix E s r x1 x2 x2a y x1a x2b x2c x2e xb
  assume "(x1, x2) = decode (compact E) (dec s) r" "(x1a, x2a) = x2" "(x2b, x2c) = x2a"
    "x1 = Inr y"
  then have "decode (compact E) (dec s) r = (Inr y, x1a, x2b, x2c)" by simp
  then have "length x2b < length r" by (rule decode_length)
  then show "((E, xb, x2b), E, s, r) \<in> measure (\<lambda>(E, s, r). length r)" by simp
qed

declare stream.simps [simp del]

text \<open>The outer \<^verbatim>\<open>for\<close> of \<^verbatim>\<open>run\<close>, one launch of the script per iteration.\<close>

fun run :: "env \<Rightarrow> supervisor \<Rightarrow> launch list \<Rightarrow> outcome \<times> event list \<times> supervisor" where
  "run E s [] = (Running, [], s)"
| "run E s (PipeFails # ls) = (Exited, [Launch, Fatal], s)"
| "run E s (StartFails # ls) =
     (case run E s ls of
        (out, evs, s1) \<Rightarrow> (out, Launch # Logged FailedStart # Slept PERIOD # evs, s1))"
| "run E s (Starts r # ls) =
     (case stream E s r of
        (True, evs, s1) \<Rightarrow> (Returned, Launch # evs, s1)
      | (False, evs, s1) \<Rightarrow>
          (case run E s1 ls of
             (out, evs2, s2) \<Rightarrow> (out, Launch # evs @ Kill # evs2, s2)))"

definition start :: supervisor where
  "start = \<lparr>dec = init, writes = 0, ticks = 0\<rparr>"

section \<open>Notions for stating the properties\<close>

text \<open>Reads that succeed and deliver the given chunks, one chunk per call.\<close>

definition delivered :: "bytes list \<Rightarrow> reader" where
  "delivered chunks = map (\<lambda>b. (b, None)) chunks"

text \<open>
  What a decoder in state \<open>st\<close> has to resolve once the given chunks have arrived: what
  its buffer held, then the chunks, less the three bytes of the preamble when the state
  has not passed it yet.
\<close>

definition seen :: "decoder \<Rightarrow> bytes list \<Rightarrow> bytes" where
  "seen st chunks =
     (if first st then drop 3 (buf st @ concat chunks) else buf st @ concat chunks)"

text \<open>
  \<open>n\<close> calls of \<^verbatim>\<open>decode\<close> in a row on one reader, each from the state the one before
  left, as the inner loop of \<^verbatim>\<open>run\<close> makes them; the first error ends the row. The entries
  are collected in order.
\<close>

fun calls ::
  "(bytes \<Rightarrow> bytes option) \<Rightarrow> nat \<Rightarrow> decoder \<Rightarrow> reader \<Rightarrow> (error + entry list) \<times> decoder \<times> reader"
where
  "calls c 0 st r = (Inr [], st, r)"
| "calls c (Suc n) st r =
     (case decode c st r of
        (Inl e, st1, r1, t) \<Rightarrow> (Inl e, st1, r1)
      | (Inr ents, st1, r1, t) \<Rightarrow>
          (case calls c n st1 r1 of
             (Inl e, st2, r2) \<Rightarrow> (Inl e, st2, r2)
           | (Inr rest, st2, r2) \<Rightarrow> (Inr (ents @ rest), st2, r2)))"


text \<open>The same script with the bytes of every failed read left out.\<close>

definition without_failed_bytes :: "reader \<Rightarrow> reader" where
  "without_failed_bytes r =
     map (\<lambda>(bs, e). case e of None \<Rightarrow> (bs, None) | Some x \<Rightarrow> ([], Some x)) r"

text \<open>
  Two environments for running the supervisor on concrete scripts: a sink that takes
  every batch, and one that answers every batch with \<^verbatim>\<open>context.Canceled\<close>.
\<close>

definition accepting :: env where
  "accepting = \<lparr>compact = Compact, sink = (\<lambda>k. Written), now = (\<lambda>k. 0), tag = 0, src = []\<rparr>"

definition cancelling :: env where
  "cancelling = \<lparr>compact = Compact, sink = (\<lambda>k. Canceled), now = (\<lambda>k. 0), tag = 0, src = []\<rparr>"

section \<open>Splitting\<close>

lemma Split_None: "sep \<noteq> [] \<Longrightarrow> Index s sep = None \<Longrightarrow> Split s sep = [s]"
  by (subst Split.simps) simp

lemma Split_Some:
  "sep \<noteq> [] \<Longrightarrow> Index s sep = Some m \<Longrightarrow>
   Split s sep = take m s # Split (drop (m + length sep) s) sep"
  by (subst Split.simps) simp

lemma Split_ne: "sep \<noteq> [] \<Longrightarrow> Split s sep \<noteq> []"
  by (subst Split.simps) (auto split: option.splits)

lemma Split_length_one: "sep \<noteq> [] \<Longrightarrow> length (Split s sep) \<le> 1 \<longleftrightarrow> Index s sep = None"
  by (cases "Index s sep") (auto simp: Split_None Split_Some Split_ne)

lemma prefix_append_long:
  assumes "length sep \<le> length a"
  shows "prefix sep (a @ c) \<longleftrightarrow> prefix sep a"
proof
  assume "prefix sep (a @ c)"
  then obtain zs where "a @ c = sep @ zs" by (auto simp: prefix_def)
  then have "take (length sep) (a @ c) = take (length sep) (sep @ zs)" by (rule arg_cong)
  then have "take (length sep) (a @ c) = sep" by simp
  with assms have "take (length sep) a = sep" by simp
  then show "prefix sep a" by (metis take_is_prefix)
next
  assume "prefix sep a"
  then show "prefix sep (a @ c)" by (rule prefix_prefix)
qed

lemma Index_append: "Index a sep = Some m \<Longrightarrow> Index (a @ c) sep = Some m"
proof (induction a arbitrary: m)
  case Nil
  then show ?case by (cases c) (auto split: if_splits)
next
  case (Cons x xs)
  show ?case
  proof (cases "prefix sep (x # xs)")
    case True
    with Cons.prems have "m = 0" by simp
    with True prefix_prefix [of sep "x # xs" c] show ?thesis by simp
  next
    case False
    with Cons.prems obtain k where k: "Index xs sep = Some k" "m = Suc k" by auto
    from k(1) have "length sep \<le> length (x # xs)" using Index_le [of xs sep k] by simp
    with False have "\<not> prefix sep ((x # xs) @ c)" by (simp only: prefix_append_long not_False_eq_True)
    with k Cons.IH [of k] show ?thesis by simp
  qed
qed

lemma Split_append:
  "sep \<noteq> [] \<Longrightarrow>
   Split (a @ c) sep = butlast (Split a sep) @ Split (last (Split a sep) @ c) sep"
proof (induction a sep rule: Split.induct)
  case (1 s sep)
  show ?case
  proof (cases "Index s sep")
    case None
    with "1.prems" show ?thesis by (simp add: Split_None)
  next
    case (Some m)
    let ?d = "drop (m + length sep) s"
    from Some have le: "m + length sep \<le> length s" by (rule Index_le)
    from Some have "Index (s @ c) sep = Some m" by (rule Index_append)
    with "1.prems" have "Split (s @ c) sep = take m (s @ c) # Split (drop (m + length sep) (s @ c)) sep"
      by (rule Split_Some)
    also from le have "take m (s @ c) = take m s" by simp
    also from le have "drop (m + length sep) (s @ c) = ?d @ c" by simp
    also from "1.IH" [OF "1.prems" Some "1.prems"]
    have "Split (?d @ c) sep = butlast (Split ?d sep) @ Split (last (Split ?d sep) @ c) sep" .
    finally show ?thesis
      using "1.prems" Some by (simp add: Split_Some Split_ne)
  qed
qed

lemma Index_last_Split: "sep \<noteq> [] \<Longrightarrow> Index (last (Split s sep)) sep = None"
proof (induction s sep rule: Split.induct)
  case (1 s sep)
  show ?case
  proof (cases "Index s sep")
    case None
    with "1.prems" show ?thesis by (simp add: Split_None)
  next
    case (Some m)
    with "1.IH" [OF "1.prems" Some "1.prems"] "1.prems" show ?thesis
      by (simp add: Split_Some Split_ne)
  qed
qed

lemma Index_take_drop:
  "Index s sep = Some m \<Longrightarrow> s = take m s @ sep @ drop (m + length sep) s"
proof (induction s arbitrary: m)
  case Nil
  then show ?case by (simp split: if_splits)
next
  case (Cons x xs)
  show ?case
  proof (cases "prefix sep (x # xs)")
    case True
    with Cons.prems have "m = 0" by simp
    with True show ?thesis by (auto simp: prefix_def)
  next
    case False
    with Cons.prems obtain k where k: "Index xs sep = Some k" "m = Suc k" by auto
    with Cons.IH [of k] show ?thesis by simp
  qed
qed

lemma Split_suffix:
  "sep \<noteq> [] \<Longrightarrow> 1 < length (Split s sep) \<Longrightarrow> \<exists>pre. s = pre @ sep @ last (Split s sep)"
proof (induction s sep rule: Split.induct)
  case (1 s sep)
  show ?case
  proof (cases "Index s sep")
    case None
    with "1.prems" show ?thesis by (simp add: Split_None)
  next
    case (Some m)
    let ?d = "drop (m + length sep) s"
    from Some have s: "s = take m s @ sep @ ?d" by (rule Index_take_drop)
    from "1.prems" Some have l: "last (Split s sep) = last (Split ?d sep)"
      by (simp add: Split_Some Split_ne)
    show ?thesis
    proof (cases "1 < length (Split ?d sep)")
      case True
      from "1.IH" [OF "1.prems"(1) Some "1.prems"(1) True]
      obtain pre where "?d = pre @ sep @ last (Split ?d sep)" ..
      with s l have "s = (take m s @ sep @ pre) @ sep @ last (Split s sep)" by simp
      then show ?thesis ..
    next
      case False
      with "1.prems" have "Index ?d sep = None" by (simp add: Split_length_one [symmetric])
      with "1.prems" have "Split ?d sep = [?d]" by (simp add: Split_None)
      with s l have "s = take m s @ sep @ last (Split s sep)" by simp
      then show ?thesis ..
    qed
  qed
qed


lemma separator_ne: "separator \<noteq> []"
  by (simp add: separator_def)

lemma consume_append:
  "consume c (xs @ ys) =
     (case consume c xs of
        None \<Rightarrow> None
      | Some a \<Rightarrow> (case consume c ys of None \<Rightarrow> None | Some b \<Rightarrow> Some (a @ b)))"
  by (induction xs) (auto split: option.splits)

lemma consume_length: "consume c fs = Some ents \<Longrightarrow> length ents = length fs"
  by (induction fs arbitrary: ents) (auto split: option.splits)

lemma records_loop_Inr:
  "records_loop c st r = (Inr ents, st1, r1, t) \<Longrightarrow>
   \<exists>chunks. r = delivered chunks @ r1 \<and> chunks \<noteq> []
     \<and> 1 < length (Split (buf st @ concat chunks) separator)
     \<and> consume c (butlast (Split (buf st @ concat chunks) separator)) = Some ents
     \<and> st1 = st\<lparr>buf := last (Split (buf st @ concat chunks) separator)\<rparr>"
proof (induction c st r arbitrary: ents st1 r1 t rule: records_loop.induct)
  case (1 c st)
  then show ?case by simp
next
  case (2 c st bs e r)
  then show ?case by simp
next
  case (3 c st bs r)
  let ?st = "st\<lparr>buf := buf st @ bs\<rparr>"
  let ?e = "Split (buf st @ bs) separator"
  show ?case
  proof (cases "length ?e \<le> 1")
    case True
    with "3.prems" obtain t' where rec: "records_loop c ?st r = (Inr ents, st1, r1, t')"
      by (auto simp: Let_def split: prod.splits)
    from True have "length (Split (buf ?st) separator) \<le> 1" by simp
    from "3.IH" [OF refl refl this rec]
    obtain chunks where ch: "r = delivered chunks @ r1"
      "1 < length (Split (buf ?st @ concat chunks) separator)"
      "consume c (butlast (Split (buf ?st @ concat chunks) separator)) = Some ents"
      "st1 = ?st\<lparr>buf := last (Split (buf ?st @ concat chunks) separator)\<rparr>"
      by blast
    show ?thesis
    proof (intro exI [of _ "bs # chunks"] conjI)
      from ch(1) show "(bs, None) # r = delivered (bs # chunks) @ r1"
        by (simp add: delivered_def)
      show "bs # chunks \<noteq> []" by simp
      from ch(2) show "1 < length (Split (buf st @ concat (bs # chunks)) separator)" by simp
      from ch(3) show "consume c (butlast (Split (buf st @ concat (bs # chunks)) separator)) = Some ents"
        by simp
      from ch(4) show "st1 = st\<lparr>buf := last (Split (buf st @ concat (bs # chunks)) separator)\<rparr>"
        by simp
    qed
  next
    case False
    with "3.prems" have f: "consume c (butlast ?e) = Some ents" "st1 = ?st\<lparr>buf := last ?e\<rparr>"
      "r1 = r"
      by (auto simp: Let_def split: option.splits)
    show ?thesis
    proof (intro exI [of _ "[bs]"] conjI)
      from f(3) show "(bs, None) # r = delivered [bs] @ r1" by (simp add: delivered_def)
      show "[bs] \<noteq> []" by simp
      from False show "1 < length (Split (buf st @ concat [bs]) separator)" by simp
      from f(1) show "consume c (butlast (Split (buf st @ concat [bs]) separator)) = Some ents"
        by simp
      from f(2) show "st1 = st\<lparr>buf := last (Split (buf st @ concat [bs]) separator)\<rparr>"
        by simp
    qed
  qed
qed

lemma records_loop_SyntaxError:
  "records_loop c st r = (Inl SyntaxError, st1, r1, t) \<Longrightarrow>
   \<exists>chunks. r = delivered chunks @ r1 \<and> chunks \<noteq> []
     \<and> 1 < length (Split (buf st @ concat chunks) separator)
     \<and> consume c (butlast (Split (buf st @ concat chunks) separator)) = None
     \<and> st1 = st\<lparr>buf := buf st @ concat chunks\<rparr>"
proof (induction c st r arbitrary: st1 r1 t rule: records_loop.induct)
  case (1 c st)
  then show ?case by simp
next
  case (2 c st bs e r)
  then show ?case by simp
next
  case (3 c st bs r)
  let ?st = "st\<lparr>buf := buf st @ bs\<rparr>"
  let ?e = "Split (buf st @ bs) separator"
  show ?case
  proof (cases "length ?e \<le> 1")
    case True
    with "3.prems" obtain t' where rec: "records_loop c ?st r = (Inl SyntaxError, st1, r1, t')"
      by (auto simp: Let_def split: prod.splits)
    from True have "length (Split (buf ?st) separator) \<le> 1" by simp
    from "3.IH" [OF refl refl this rec]
    obtain chunks where ch: "r = delivered chunks @ r1"
      "1 < length (Split (buf ?st @ concat chunks) separator)"
      "consume c (butlast (Split (buf ?st @ concat chunks) separator)) = None"
      "st1 = ?st\<lparr>buf := buf ?st @ concat chunks\<rparr>"
      by blast
    show ?thesis
    proof (intro exI [of _ "bs # chunks"] conjI)
      from ch(1) show "(bs, None) # r = delivered (bs # chunks) @ r1"
        by (simp add: delivered_def)
      show "bs # chunks \<noteq> []" by simp
      from ch(2) show "1 < length (Split (buf st @ concat (bs # chunks)) separator)" by simp
      from ch(3) show "consume c (butlast (Split (buf st @ concat (bs # chunks)) separator)) = None"
        by simp
      from ch(4) show "st1 = st\<lparr>buf := buf st @ concat (bs # chunks)\<rparr>"
        by simp
    qed
  next
    case False
    with "3.prems" have f: "consume c (butlast ?e) = None" "st1 = ?st" "r1 = r"
      by (auto simp: Let_def split: option.splits)
    show ?thesis
    proof (intro exI [of _ "[bs]"] conjI)
      from f(3) show "(bs, None) # r = delivered [bs] @ r1" by (simp add: delivered_def)
      show "[bs] \<noteq> []" by simp
      from False show "1 < length (Split (buf st @ concat [bs]) separator)" by simp
      from f(1) show "consume c (butlast (Split (buf st @ concat [bs]) separator)) = None"
        by simp
      from f(2) show "st1 = st\<lparr>buf := buf st @ concat [bs]\<rparr>"
        by simp
    qed
  qed
qed

lemma preamble_loop_Inr:
  "preamble_loop st r = (Inr u, st1, r1, t) \<Longrightarrow>
   \<exists>chunks. r = delivered chunks @ r1 \<and> chunks \<noteq> []
     \<and> 3 \<le> length (buf st @ concat chunks)
     \<and> st1 = st\<lparr>buf := drop 3 (buf st @ concat chunks), first := False\<rparr>"
proof (induction st r arbitrary: st1 r1 t rule: preamble_loop.induct)
  case (1 st)
  then show ?case by simp
next
  case (2 st bs e r)
  then show ?case by simp
next
  case (3 st bs r)
  let ?st = "if length bs > 0 then st\<lparr>buf := buf st @ bs\<rparr> else st"
  have b: "buf ?st = buf st @ bs" by simp
  have st: "?st = st\<lparr>buf := buf st @ bs\<rparr>" by simp
  show ?case
  proof (cases "3 \<le> length (buf ?st)")
    case False
    with "3.prems" obtain t' where rec: "preamble_loop ?st r = (Inr u, st1, r1, t')"
      by (auto simp: Let_def split: prod.splits if_splits)
    from "3.IH" [OF refl False rec]
    obtain chunks where ch: "r = delivered chunks @ r1"
      "3 \<le> length (buf ?st @ concat chunks)"
      "st1 = ?st\<lparr>buf := drop 3 (buf ?st @ concat chunks), first := False\<rparr>"
      by blast
    show ?thesis
    proof (intro exI [of _ "bs # chunks"] conjI)
      from ch(1) show "(bs, None) # r = delivered (bs # chunks) @ r1"
        by (simp add: delivered_def)
      show "bs # chunks \<noteq> []" by simp
      from ch(2) show "3 \<le> length (buf st @ concat (bs # chunks))"
        unfolding b by simp
      from ch(3) show "st1 = st\<lparr>buf := drop 3 (buf st @ concat (bs # chunks)), first := False\<rparr>"
        unfolding b st by simp
    qed
  next
    case True
    with "3.prems" have f: "st1 = ?st\<lparr>buf := drop 3 (buf ?st), first := False\<rparr>" "r1 = r"
      by (auto simp: Let_def split: if_splits)
    show ?thesis
    proof (intro exI [of _ "[bs]"] conjI)
      from f(2) show "(bs, None) # r = delivered [bs] @ r1" by (simp add: delivered_def)
      show "[bs] \<noteq> []" by simp
      from True show "3 \<le> length (buf st @ concat [bs])" unfolding b by simp
      from f(1) show "st1 = st\<lparr>buf := drop 3 (buf st @ concat [bs]), first := False\<rparr>"
        unfolding b st by simp
    qed
  qed
qed


lemma delivered_append: "delivered (a @ b) = delivered a @ delivered b"
  by (simp add: delivered_def)

lemma decode_Inr:
  assumes "decode c st r = (Inr ents, st1, r1, t)"
  shows "\<exists>chunks. r = delivered chunks @ r1 \<and> chunks \<noteq> []
     \<and> 1 < length (Split (seen st chunks) separator)
     \<and> consume c (butlast (Split (seen st chunks) separator)) = Some ents
     \<and> buf st1 = last (Split (seen st chunks) separator) \<and> \<not> first st1
     \<and> (\<forall>xs. seen st (chunks @ xs) = seen st chunks @ concat xs)"
proof (cases "first st")
  case False
  with assms have "records_loop c st r = (Inr ents, st1, r1, t)" by (simp add: decode_def)
  from records_loop_Inr [OF this]
  obtain chunks where ch: "r = delivered chunks @ r1" "chunks \<noteq> []"
    "1 < length (Split (buf st @ concat chunks) separator)"
    "consume c (butlast (Split (buf st @ concat chunks) separator)) = Some ents"
    "st1 = st\<lparr>buf := last (Split (buf st @ concat chunks) separator)\<rparr>"
    by blast
  from False have s: "\<And>xs. seen st xs = buf st @ concat xs" by (simp add: seen_def)
  show ?thesis
  proof (intro exI [of _ chunks] conjI allI)
    from ch(5) show "buf st1 = last (Split (seen st chunks) separator)" by (simp add: s)
    from ch(5) False show "\<not> first st1" by simp
  qed (use ch in \<open>simp_all add: s\<close>)
next
  case True
  obtain res0 st0 r0 t0 where p: "preamble_loop st r = (res0, st0, r0, t0)"
    by (cases "preamble_loop st r") auto
  with True assms obtain u t2 where u: "res0 = Inr u"
    and rec: "records_loop c st0 r0 = (Inr ents, st1, r1, t2)"
    by (auto simp: decode_def split: sum.splits prod.splits)
  from p u have "preamble_loop st r = (Inr u, st0, r0, t0)" by simp
  from preamble_loop_Inr [OF this]
  obtain pre where pre: "r = delivered pre @ r0" "pre \<noteq> []"
    "3 \<le> length (buf st @ concat pre)"
    "st0 = st\<lparr>buf := drop 3 (buf st @ concat pre), first := False\<rparr>"
    by blast
  from records_loop_Inr [OF rec]
  obtain chunks where ch: "r0 = delivered chunks @ r1" "chunks \<noteq> []"
    "1 < length (Split (buf st0 @ concat chunks) separator)"
    "consume c (butlast (Split (buf st0 @ concat chunks) separator)) = Some ents"
    "st1 = st0\<lparr>buf := last (Split (buf st0 @ concat chunks) separator)\<rparr>"
    by blast
  from pre(4) have b0: "buf st0 = drop 3 (buf st @ concat pre)" by simp
  from True pre(3) have s: "\<And>xs. seen st (pre @ xs) = buf st0 @ concat xs"
    by (simp add: seen_def b0)
  show ?thesis
  proof (intro exI [of _ "pre @ chunks"] conjI allI)
    from pre(1) ch(1) show "r = delivered (pre @ chunks) @ r1" by (simp add: delivered_append)
    from ch(2) show "pre @ chunks \<noteq> []" by simp
    from ch(3) show "1 < length (Split (seen st (pre @ chunks)) separator)" by (simp add: s)
    from ch(4) show "consume c (butlast (Split (seen st (pre @ chunks)) separator)) = Some ents"
      by (simp add: s)
    from ch(5) show "buf st1 = last (Split (seen st (pre @ chunks)) separator)" by (simp add: s)
    from ch(5) pre(4) show "\<not> first st1" by simp
    fix xs
    have "seen st (pre @ (chunks @ xs)) = buf st0 @ concat (chunks @ xs)" by (rule s)
    then show "seen st ((pre @ chunks) @ xs) = seen st (pre @ chunks) @ concat xs"
      by (simp add: s)
  qed
qed

section \<open>What a row of successful calls has done\<close>

lemma calls_Inr:
  "calls c n st r = (Inr ents, st1, r1) \<Longrightarrow> 0 < n \<Longrightarrow>
   \<exists>chunks. r = delivered chunks @ r1 \<and> chunks \<noteq> []
     \<and> 1 < length (Split (seen st chunks) separator)
     \<and> consume c (butlast (Split (seen st chunks) separator)) = Some ents
     \<and> buf st1 = last (Split (seen st chunks) separator) \<and> \<not> first st1
     \<and> (\<forall>xs. seen st (chunks @ xs) = seen st chunks @ concat xs)"
proof (induction n arbitrary: st r ents)
  case 0
  then show ?case by simp
next
  case (Suc n)
  from Suc.prems(1) obtain e1 s1 ra t e2
    where d: "decode c st r = (Inr e1, s1, ra, t)"
      and cs: "calls c n s1 ra = (Inr e2, st1, r1)"
      and ents: "ents = e1 @ e2"
    by (auto split: prod.splits sum.splits)
  from decode_Inr [OF d]
  obtain ch1 where ch1: "r = delivered ch1 @ ra" "ch1 \<noteq> []"
    "1 < length (Split (seen st ch1) separator)"
    "consume c (butlast (Split (seen st ch1) separator)) = Some e1"
    "buf s1 = last (Split (seen st ch1) separator)" "\<not> first s1"
    "\<And>xs. seen st (ch1 @ xs) = seen st ch1 @ concat xs"
    by blast
  show ?case
  proof (cases n)
    case 0
    with cs have "e2 = []" "st1 = s1" "r1 = ra" by simp_all
    with ch1 ents show ?thesis by (intro exI [of _ ch1]) simp
  next
    case (Suc k)
    then have "0 < n" by simp
    from Suc.IH [OF cs this]
    obtain ch2 where ch2: "ra = delivered ch2 @ r1"
      "1 < length (Split (seen s1 ch2) separator)"
      "consume c (butlast (Split (seen s1 ch2) separator)) = Some e2"
      "buf st1 = last (Split (seen s1 ch2) separator)" "\<not> first st1"
      by blast
    let ?X1 = "seen st ch1" and ?X2 = "seen s1 ch2"
    from ch1(5,6) have x2: "?X2 = last (Split ?X1 separator) @ concat ch2"
      by (simp add: seen_def)
    have ne: "Split ?X2 separator \<noteq> []" by (simp add: Split_ne separator_ne)
    have "Split (seen st (ch1 @ ch2)) separator = Split (?X1 @ concat ch2) separator"
      by (simp add: ch1(7))
    also have "\<dots> = butlast (Split ?X1 separator) @ Split ?X2 separator"
      unfolding x2 by (rule Split_append [OF separator_ne])
    finally have sp: "Split (seen st (ch1 @ ch2)) separator
      = butlast (Split ?X1 separator) @ Split ?X2 separator" .
    show ?thesis
    proof (intro exI [of _ "ch1 @ ch2"] conjI allI)
      from ch1(1) ch2(1) show "r = delivered (ch1 @ ch2) @ r1" by (simp add: delivered_append)
      from ch1(2) show "ch1 @ ch2 \<noteq> []" by simp
      from ch2(2) show "1 < length (Split (seen st (ch1 @ ch2)) separator)"
        unfolding sp by simp
      from ne ch1(4) ch2(3) ents
      show "consume c (butlast (Split (seen st (ch1 @ ch2)) separator)) = Some ents"
        unfolding sp by (simp add: butlast_append consume_append)
      from ne ch2(4) show "buf st1 = last (Split (seen st (ch1 @ ch2)) separator)"
        unfolding sp by simp
      from ch2(5) show "\<not> first st1" .
      fix xs
      have "seen st (ch1 @ (ch2 @ xs)) = seen st ch1 @ concat (ch2 @ xs)" by (rule ch1(7))
      moreover have "seen st (ch1 @ ch2) = seen st ch1 @ concat ch2" by (rule ch1(7))
      ultimately show "seen st ((ch1 @ ch2) @ xs) = seen st (ch1 @ ch2) @ concat xs" by simp
    qed
  qed
qed

lemma delivered_inj: "delivered a = delivered b \<Longrightarrow> a = b"
  unfolding delivered_def by (rule map_injective) (auto simp: inj_on_def)

lemma calls_Inr_chunks:
  assumes "calls c n st (delivered chunks @ r1) = (Inr ents, st1, r1)" "0 < n"
  shows "1 < length (Split (seen st chunks) separator)
     \<and> consume c (butlast (Split (seen st chunks) separator)) = Some ents
     \<and> buf st1 = last (Split (seen st chunks) separator) \<and> \<not> first st1"
proof -
  from calls_Inr [OF assms]
  obtain ch where ch: "delivered chunks @ r1 = delivered ch @ r1"
    "1 < length (Split (seen st ch) separator)"
    "consume c (butlast (Split (seen st ch) separator)) = Some ents"
    "buf st1 = last (Split (seen st ch) separator)" "\<not> first st1"
    by blast
  from ch(1) have "chunks = ch" by (simp add: delivered_inj)
  with ch show ?thesis by simp
qed

section \<open>The preamble and failed reads\<close>

lemma preamble_loop_delivered:
  "length (buf st @ concat chunks) < 3 \<Longrightarrow> 3 \<le> length (buf st @ concat chunks @ c) \<Longrightarrow>
   preamble_loop st (delivered chunks @ (c, None) # rest) =
     (Inr (), st\<lparr>buf := drop 3 (buf st @ concat chunks @ c), first := False\<rparr>, rest,
      int (length chunks) * READ_PERIOD)"
proof (induction chunks arbitrary: st)
  case Nil
  then show ?case by (cases "c = []") (auto simp: delivered_def)
next
  case (Cons x xs)
  let ?st = "st\<lparr>buf := buf st @ x\<rparr>"
  from Cons.prems have short: "\<not> 3 \<le> length (buf st @ x)" by simp
  from Cons.prems have "length (buf ?st @ concat xs) < 3" "3 \<le> length (buf ?st @ concat xs @ c)"
    by simp_all
  from Cons.IH [OF this]
  have ih: "preamble_loop ?st (delivered xs @ (c, None) # rest) =
     (Inr (), ?st\<lparr>buf := drop 3 (buf ?st @ concat xs @ c), first := False\<rparr>, rest,
      int (length xs) * READ_PERIOD)" .
  have "preamble_loop st ((x, None) # delivered xs @ (c, None) # rest) =
     (case preamble_loop ?st (delivered xs @ (c, None) # rest) of
        (res, st2, r2, t) \<Rightarrow> (res, st2, r2, READ_PERIOD + t))"
    using short by (cases "x = []") simp_all
  with ih show ?case by (simp add: delivered_def algebra_simps)
qed

lemma records_loop_first: "first (fst (snd (records_loop c st r))) = first st"
proof (induction c st r rule: records_loop.induct)
  case (1 c st)
  show ?case by simp
next
  case (2 c st bs e r)
  show ?case by simp
next
  case (3 c st bs r)
  show ?case
  proof (cases "length (Split (buf st @ bs) separator) \<le> 1")
    case True
    with "3.IH" [OF refl refl]
    have "first (fst (snd (records_loop c (st\<lparr>buf := buf st @ bs\<rparr>) r))) = first st"
      by simp
    with True show ?thesis by (auto simp: Let_def split: prod.splits)
  next
    case False
    then show ?thesis by (simp add: Let_def split: option.splits)
  qed
qed

lemma preamble_loop_without_failed_bytes:
  "preamble_loop st (without_failed_bytes r) =
     (case preamble_loop st r of (res, st1, r1, t) \<Rightarrow> (res, st1, without_failed_bytes r1, t))"
proof (induction st r rule: preamble_loop.induct)
  case (1 st)
  show ?case by (simp add: without_failed_bytes_def)
next
  case (2 st bs e r)
  show ?case by (simp add: without_failed_bytes_def)
next
  case (3 st bs r)
  let ?st = "if length bs > 0 then st\<lparr>buf := buf st @ bs\<rparr> else st"
  show ?case
  proof (cases "3 \<le> length (buf ?st)")
    case True
    then show ?thesis by (simp add: without_failed_bytes_def Let_def)
  next
    case False
    from "3.IH" [OF refl False]
    have "preamble_loop ?st (without_failed_bytes r) =
      (case preamble_loop ?st r of (res, st1, r1, t) \<Rightarrow> (res, st1, without_failed_bytes r1, t))" .
    moreover have "without_failed_bytes ((bs, None) # r) = (bs, None) # without_failed_bytes r"
      by (simp add: without_failed_bytes_def)
    ultimately show ?thesis using False
      by (simp add: Let_def split: prod.splits)
  qed
qed

lemma records_loop_without_failed_bytes:
  "records_loop c st (without_failed_bytes r) =
     (case records_loop c st r of (res, st1, r1, t) \<Rightarrow> (res, st1, without_failed_bytes r1, t))"
proof (induction c st r rule: records_loop.induct)
  case (1 c st)
  show ?case by (simp add: without_failed_bytes_def)
next
  case (2 c st bs e r)
  show ?case by (simp add: without_failed_bytes_def)
next
  case (3 c st bs r)
  let ?st = "st\<lparr>buf := buf st @ bs\<rparr>"
  have w: "without_failed_bytes ((bs, None) # r) = (bs, None) # without_failed_bytes r"
    by (simp add: without_failed_bytes_def)
  show ?case
  proof (cases "length (Split (buf ?st) separator) \<le> 1")
    case False
    then show ?thesis unfolding w by (simp add: Let_def split: option.splits)
  next
    case True
    from "3.IH" [OF refl refl True]
    have "records_loop c ?st (without_failed_bytes r) =
      (case records_loop c ?st r of (res, st1, r1, t) \<Rightarrow> (res, st1, without_failed_bytes r1, t))" .
    with True show ?thesis unfolding w
      by (simp add: Let_def split: prod.splits)
  qed
qed

section \<open>The supervisor loop\<close>

lemma run_start_failures:
  "run E s (replicate n StartFails @ ls) =
     (case run E s ls of
        (out, evs, s1) \<Rightarrow>
          (out, concat (replicate n [Launch, Logged FailedStart, Slept PERIOD]) @ evs, s1))"
  by (induction n) (simp_all split: prod.splits)

lemma run_not_exited: "PipeFails \<notin> set ls \<Longrightarrow> fst (run E s ls) \<noteq> Exited"
proof (induction ls arbitrary: s)
  case Nil
  show ?case by simp
next
  case (Cons l ls)
  from Cons.prems have ih: "\<And>s'. fst (run E s' ls) \<noteq> Exited" by (simp add: Cons.IH)
  show ?case
  proof (cases l)
    case PipeFails
    with Cons.prems show ?thesis by simp
  next
    case StartFails
    with ih [of s] show ?thesis by (cases "run E s ls") auto
  next
    case (Starts r)
    obtain ret evs s1 where st: "stream E s r = (ret, evs, s1)" by (cases "stream E s r") auto
    with Starts ih [of s1] show ?thesis by (cases ret; cases "run E s1 ls") auto
  qed
qed

text \<open>
  A run that returns has started a process and has not killed it: behind the last
  \<open>Launch\<close> of its trace there is no \<open>Kill\<close>.
\<close>

lemma stream_returns:
  "stream E s r = (True, evs, s1) \<Longrightarrow> Kill \<notin> set evs \<and> Launch \<notin> set evs"
proof (induction E s r arbitrary: evs s1 rule: stream.induct)
  case (1 E s r)
  obtain res st1 r1 t where d: "decode (compact E) (dec s) r = (res, st1, r1, t)"
    by (cases "decode (compact E) (dec s) r") auto
  show ?case
  proof (cases res)
    case (Inl e)
    with d "1.prems" show ?thesis by (simp add: stream.simps [of E s r])
  next
    case (Inr ents)
    let ?s1 = "s\<lparr>dec := st1, writes := Suc (writes s), ticks := ticks s + length ents\<rparr>"
    obtain ret evs' s2 where rec: "stream E ?s1 r1 = (ret, evs', s2)"
      by (cases "stream E ?s1 r1") auto
    show ?thesis
    proof (cases "sink E (writes s)")
      case Canceled
      with d Inr "1.prems" show ?thesis by (auto simp: stream.simps [of E s r] Let_def)
    next
      case Written
      with d Inr rec "1.prems" have "ret = True" "evs = Decode # WriteBatch (enrich E (ticks s) ents) # evs'"
        by (auto simp: stream.simps [of E s r] Let_def)
      moreover from this(1) rec "1.IH"(1) [OF d [symmetric] Inr refl refl refl refl Written, of evs' s2]
      have "Kill \<notin> set evs' \<and> Launch \<notin> set evs'" by simp
      ultimately show ?thesis by simp
    next
      case WriteFailed
      with d Inr rec "1.prems" have "ret = True"
        "evs = Decode # WriteBatch (enrich E (ticks s) ents) # Logged SendingMessage # evs'"
        by (auto simp: stream.simps [of E s r] Let_def)
      moreover from this(1) rec "1.IH"(2) [OF d [symmetric] Inr refl refl refl refl WriteFailed, of evs' s2]
      have "Kill \<notin> set evs' \<and> Launch \<notin> set evs'" by simp
      ultimately show ?thesis by simp
    qed
  qed
qed

lemma run_returns_without_kill:
  "run E s ls = (Returned, evs, s1) \<Longrightarrow>
   \<exists>before after. evs = before @ Launch # after \<and> Kill \<notin> set after \<and> Launch \<notin> set after"
proof (induction ls arbitrary: s evs s1)
  case Nil
  then show ?case by simp
next
  case (Cons l ls)
  show ?case
  proof (cases l)
    case PipeFails
    with Cons.prems show ?thesis by simp
  next
    case StartFails
    obtain out evs' s' where r: "run E s ls = (out, evs', s')" by (cases "run E s ls") auto
    with StartFails Cons.prems have o: "out = Returned"
      and e: "evs = [Launch, Logged FailedStart, Slept PERIOD] @ evs'" by simp_all
    from Cons.IH [of s evs' s'] r o obtain b a where "evs' = b @ Launch # a"
      "Kill \<notin> set a \<and> Launch \<notin> set a" by auto
    with e have "evs = ([Launch, Logged FailedStart, Slept PERIOD] @ b) @ Launch # a
      \<and> Kill \<notin> set a \<and> Launch \<notin> set a" by simp
    then show ?thesis by blast
  next
    case (Starts r)
    obtain ret sevs s2 where st: "stream E s r = (ret, sevs, s2)" by (cases "stream E s r") auto
    show ?thesis
    proof (cases ret)
      case True
      with st Starts Cons.prems have "evs = [] @ Launch # sevs" by simp
      moreover from st True have "Kill \<notin> set sevs \<and> Launch \<notin> set sevs"
        by (simp add: stream_returns)
      ultimately show ?thesis by blast
    next
      case False
      obtain out evs' s' where r2: "run E s2 ls = (out, evs', s')" by (cases "run E s2 ls") auto
      with False st Starts Cons.prems have o: "out = Returned"
        and e: "evs = Launch # sevs @ Kill # evs'" by simp_all
      from Cons.IH [of s2 evs' s'] r2 o obtain b a where "evs' = b @ Launch # a"
        "Kill \<notin> set a \<and> Launch \<notin> set a" by auto
      with e have "evs = (Launch # sevs @ Kill # b) @ Launch # a
        \<and> Kill \<notin> set a \<and> Launch \<notin> set a" by simp
      then show ?thesis by blast
    qed
  qed
qed

section \<open>A fragment that does not compact\<close>

lemma decode_SyntaxError:
  assumes "decode c st r = (Inl SyntaxError, st1, r1, t)"
  shows "\<exists>chunks. r = delivered chunks @ r1 \<and> chunks \<noteq> []
     \<and> buf st1 = seen st chunks \<and> \<not> first st1
     \<and> 1 < length (Split (buf st1) separator)
     \<and> consume c (butlast (Split (buf st1) separator)) = None"
proof (cases "first st")
  case False
  with assms have "records_loop c st r = (Inl SyntaxError, st1, r1, t)" by (simp add: decode_def)
  from records_loop_SyntaxError [OF this]
  obtain chunks where ch: "r = delivered chunks @ r1" "chunks \<noteq> []"
    "1 < length (Split (buf st @ concat chunks) separator)"
    "consume c (butlast (Split (buf st @ concat chunks) separator)) = None"
    "st1 = st\<lparr>buf := buf st @ concat chunks\<rparr>"
    by blast
  from False have s: "\<And>xs. seen st xs = buf st @ concat xs" by (simp add: seen_def)
  from ch(5) have b: "buf st1 = buf st @ concat chunks" by simp
  from ch(5) False have "\<not> first st1" by simp
  with ch show ?thesis by (intro exI [of _ chunks]) (simp add: s b)
next
  case True
  obtain res0 st0 r0 t0 where p: "preamble_loop st r = (res0, st0, r0, t0)"
    by (cases "preamble_loop st r") auto
  with True assms obtain u t2 where u: "res0 = Inr u"
    and rec: "records_loop c st0 r0 = (Inl SyntaxError, st1, r1, t2)"
    by (auto simp: decode_def split: sum.splits prod.splits)
  from p u have "preamble_loop st r = (Inr u, st0, r0, t0)" by simp
  from preamble_loop_Inr [OF this]
  obtain pre where pre: "r = delivered pre @ r0" "pre \<noteq> []"
    "3 \<le> length (buf st @ concat pre)"
    "st0 = st\<lparr>buf := drop 3 (buf st @ concat pre), first := False\<rparr>"
    by blast
  from records_loop_SyntaxError [OF rec]
  obtain chunks where ch: "r0 = delivered chunks @ r1" "chunks \<noteq> []"
    "1 < length (Split (buf st0 @ concat chunks) separator)"
    "consume c (butlast (Split (buf st0 @ concat chunks) separator)) = None"
    "st1 = st0\<lparr>buf := buf st0 @ concat chunks\<rparr>"
    by blast
  from pre(4) have b0: "buf st0 = drop 3 (buf st @ concat pre)" by simp
  from True pre(3) have s: "seen st (pre @ chunks) = buf st0 @ concat chunks"
    by (simp add: seen_def b0)
  from ch(5) have b: "buf st1 = buf st0 @ concat chunks" by simp
  show ?thesis
  proof (intro exI [of _ "pre @ chunks"] conjI)
    from pre(1) ch(1) show "r = delivered (pre @ chunks) @ r1" by (simp add: delivered_append)
    from ch(2) show "pre @ chunks \<noteq> []" by simp
    show "buf st1 = seen st (pre @ chunks)" by (simp add: s b)
    from ch(5) pre(4) show "\<not> first st1" by simp
    from ch(3) show "1 < length (Split (buf st1) separator)" by (simp add: b)
    from ch(4) show "consume c (butlast (Split (buf st1) separator)) = None" by (simp add: b)
  qed
qed


text \<open>Once a fragment has failed to compact, every later call fails on it again at its
  first read: the buffer still starts with that fragment.\<close>

lemma syntax_error_persists:
  assumes "decode c st r = (Inl SyntaxError, st1, r1, t)"
  shows "decode c st1 ((bs, None) # r') = (Inl SyntaxError, st1\<lparr>buf := buf st1 @ bs\<rparr>, r', 0)"
proof -
  from decode_SyntaxError [OF assms]
  have f: "\<not> first st1" and l: "1 < length (Split (buf st1) separator)"
    and n: "consume c (butlast (Split (buf st1) separator)) = None"
    by blast+
  let ?a = "butlast (Split (buf st1) separator)"
  let ?b = "Split (last (Split (buf st1) separator) @ bs) separator"
  have sp: "Split (buf st1 @ bs) separator = ?a @ ?b"
    by (rule Split_append [OF separator_ne])
  have ne: "?b \<noteq> []" by (simp add: Split_ne separator_ne)
  from l ne have "\<not> length (?a @ ?b) \<le> 1" by (cases ?b) auto
  moreover from ne n have "consume c (butlast (?a @ ?b)) = None"
    by (simp add: butlast_append consume_append)
  ultimately show ?thesis using f by (simp add: decode_def sp Let_def)
qed

section \<open>Concrete streams\<close>

lemma decode_two_chunks:
  \<open>decode Compact init
     [(''[{\<newline>'', None), (''"a":1\<newline>},{\<newline>"b":2\<newline>}]'', None)] =
   (Inr [new_entry ''{"a":1}''], \<lparr>buf = ''"b":2\<newline>}]'', first = False\<rparr>, [], 0)\<close>
  by code_simp

lemma calls_two_chunks:
  \<open>calls Compact (Suc 0) init
     (delivered [''[{\<newline>'', ''"a":1\<newline>},{\<newline>"b":2\<newline>}]''] @ []) =
   (Inr [new_entry ''{"a":1}''], \<lparr>buf = ''"b":2\<newline>}]'', first = False\<rparr>, [])\<close>
  by code_simp

lemma calls_split_separator:
  \<open>calls Compact (Suc (Suc 0)) init
     (delivered [''[{'', ''\<newline>"a":1\<newline>}'', '',{\<newline>"b":2\<newline>},{'', ''\<newline>"c"''] @ []) =
   (Inr [new_entry ''{"a":1}'', new_entry ''{"b":2}''], \<lparr>buf = ''"c"'', first = False\<rparr>, [])\<close>
  by code_simp

lemma calls_one_read:
  \<open>calls Compact (Suc 0) init
     (delivered [''[{\<newline>'', ''"a":1\<newline>},{\<newline>"b":2\<newline>},{\<newline>"c"''] @ []) =
   (Inr [new_entry ''{"a":1}'', new_entry ''{"b":2}''], \<lparr>buf = ''"c"'', first = False\<rparr>, [])\<close>
  by code_simp

lemma decode_bad_fragment:
  \<open>decode Compact init
     [(''[{\<newline>'', None), (''"a":1\<newline>},{\<newline>xx\<newline>},{\<newline>'', None)] =
   (Inl SyntaxError, \<lparr>buf = ''"a":1\<newline>},{\<newline>xx\<newline>},{\<newline>'', first = False\<rparr>, [], 0)\<close>
  by code_simp

section \<open>The claims\<close>

text \<open>
  C1. The claim: after a decode error has made \<^verbatim>\<open>run\<close> restart the producer, the decoder
  starts the next run afresh, with an empty buffer and the preamble still to strip. The
  code keeps \<^verbatim>\<open>buf\<close> and \<^verbatim>\<open>first\<close> in package-level variables that \<^verbatim>\<open>run\<close> never resets.
  Here the first process ends after \<^verbatim>\<open>[{\n"a"\<close>: the second run starts with \<^verbatim>\<open>"a"\<close> in the
  buffer and the flag cleared, takes the new stream's \<^verbatim>\<open>[{\n\<close> for record bytes and fails
  with a syntax error, where a fresh decoder returns the record \<^verbatim>\<open>{"c":3}\<close>.
\<close>

theorem restart_keeps_decoder_state:
  \<open>run accepting start
     [Starts [(''[{\<newline>"a"'', None)],
      Starts [(''[{\<newline>'', None), (''"c":3\<newline>},{\<newline>'', None)]] =
   (Running,
    [Launch, Decode, Logged (FailedDecode (ReadError EOF)), Kill,
     Launch, Decode, Logged (FailedDecode SyntaxError), Kill],
    \<lparr>dec = \<lparr>buf = ''"a"[{\<newline>"c":3\<newline>},{\<newline>'', first = False\<rparr>, writes = 0, ticks = 0\<rparr>)
   \<and> decode Compact init [(''[{\<newline>"a"'', None)] =
       (Inl (ReadError EOF), \<lparr>buf = ''"a"'', first = False\<rparr>, [], 0)
   \<and> decode Compact init [(''[{\<newline>'', None), (''"c":3\<newline>},{\<newline>'', None)] =
       (Inr [new_entry ''{"c":3}''], \<lparr>buf = [], first = False\<rparr>, [], 0)\<close>
  by code_simp

text \<open>
  C2, as amended. However the bytes \<^verbatim>\<open>[{\n"a":1\n},{\n"b":2\n}]\<close> are cut into reads,
  calls of \<^verbatim>\<open>decode\<close> that succeed and have consumed exactly these bytes have returned one
  entry, \<^verbatim>\<open>{"a":1}\<close>; the second object stays in the buffer as the unresolved fragment
  \<^verbatim>\<open>"b":2\n}]\<close>, since no separator follows it.
\<close>

theorem one_record_then_pending:
  assumes \<open>calls Compact n init (delivered chunks @ r1) = (Inr ents, st1, r1)\<close> and \<open>0 < n\<close>
    and \<open>concat chunks = ''[{\<newline>"a":1\<newline>},{\<newline>"b":2\<newline>}]''\<close>
  shows \<open>ents = [new_entry ''{"a":1}''] \<and> buf st1 = ''"b":2\<newline>}]''\<close>
proof -
  from assms(3) have s: \<open>seen init chunks = ''"a":1\<newline>},{\<newline>"b":2\<newline>}]''\<close>
    by (simp add: seen_def init_def)
  have bf: \<open>butlast (Split ''"a":1\<newline>},{\<newline>"b":2\<newline>}]'' separator) = [''"a":1'']\<close>
    by code_simp
  have lf: \<open>last (Split ''"a":1\<newline>},{\<newline>"b":2\<newline>}]'' separator) = ''"b":2\<newline>}]''\<close>
    by code_simp
  have co: \<open>consume Compact [''"a":1''] = Some [new_entry ''{"a":1}'']\<close>
    by code_simp
  from calls_Inr_chunks [OF assms(1,2)]
  have c: \<open>consume Compact (butlast (Split (seen init chunks) separator)) = Some ents\<close>
    and b: \<open>buf st1 = last (Split (seen init chunks) separator)\<close>
    by blast+
  from c have \<open>consume Compact [''"a":1''] = Some ents\<close> unfolding s bf .
  with co have \<open>ents = [new_entry ''{"a":1}'']\<close> by (simp only: option.inject)
  moreover from b have \<open>buf st1 = ''"b":2\<newline>}]''\<close> unfolding s lf .
  ultimately show ?thesis by (rule conjI)
qed

theorem one_record_then_pending_witness:
  \<open>calls Compact (Suc 0) init
     (delivered [''[{\<newline>'', ''"a":1\<newline>},{\<newline>"b":2\<newline>}]''] @ []) =
   (Inr [new_entry ''{"a":1}''], \<lparr>buf = ''"b":2\<newline>}]'', first = False\<rparr>, [])
   \<and> concat [''[{\<newline>'', ''"a":1\<newline>},{\<newline>"b":2\<newline>}]''] = ''[{\<newline>"a":1\<newline>},{\<newline>"b":2\<newline>}]''
   \<and> [new_entry ''{"a":1}''] = [new_entry ''{"a":1}'']
   \<and> buf \<lparr>buf = ''"b":2\<newline>}]'', first = False\<rparr> = ''"b":2\<newline>}]''\<close>
  using one_record_then_pending [OF calls_two_chunks] calls_two_chunks by simp

theorem two_records_counterexample:
  \<open>fst (decode Compact init [(''[{\<newline>"a":1\<newline>},{\<newline>"b":2\<newline>}]'', None)])
     = Inl (ReadError EOF)
   \<and> fst (decode Compact init
            [(''[{\<newline>'', None), (''"a":1\<newline>},{\<newline>"b":2\<newline>}]'', None)])
     = Inr [new_entry ''{"a":1}'']
   \<and> fst (decode Compact \<lparr>buf = ''"b":2\<newline>}]'', first = False\<rparr> [])
     = Inl (ReadError EOF)\<close>
  by code_simp

text \<open>
  C3. The claim: when a batch write returns the cancellation error, \<^verbatim>\<open>run\<close> stops at once
  and the producer process is terminated. The \<^verbatim>\<open>return\<close> does stop the loop (no second
  launch, decode or write follows in the trace), but it leaves before the
  \<^verbatim>\<open>cmd.Process.Kill()\<close> that only the \<^verbatim>\<open>break\<close> of a decode error reaches: the trace of
  a cancelled run has no \<open>Kill\<close>.
\<close>

theorem cancel_returns_without_kill:
  \<open>run cancelling start
     [Starts [(''[{\<newline>'', None), (''"a":1\<newline>},{\<newline>"b":2\<newline>},{\<newline>'', None)],
      Starts [(''[{\<newline>'', None), (''"c":3\<newline>},{\<newline>'', None)]] =
   (Returned,
    [Launch, Decode, WriteBatch [new_entry ''{"a":1}'', new_entry ''{"b":2}'']],
    \<lparr>dec = \<lparr>buf = [], first = False\<rparr>, writes = 1, ticks = 2\<rparr>)\<close>
  by code_simp

text \<open>
  C4, as amended. A failed \<^verbatim>\<open>cmd.Start\<close> is logged, followed by a sleep of \<open>PERIOD\<close>, one
  second, and by the next launch, as often as it fails; and as long as no launch fails in
  \<^verbatim>\<open>cmd.StdoutPipe\<close>, no failure of a decode or of a write makes \<^verbatim>\<open>run\<close> end the process.
  A failure of \<^verbatim>\<open>cmd.StdoutPipe\<close> is fatal: it goes to \<^verbatim>\<open>lg.Fatal\<close>.
\<close>

theorem only_pipe_failure_is_fatal:
  "PERIOD = 1000000000
   \<and> run E s (replicate n StartFails @ ls) =
       (case run E s ls of
          (out, evs, s1) \<Rightarrow>
            (out, concat (replicate n [Launch, Logged FailedStart, Slept PERIOD]) @ evs, s1))
   \<and> (PipeFails \<notin> set ls \<longrightarrow> fst (run E s ls) \<noteq> Exited)"
  using run_start_failures [of E s n ls] run_not_exited [of ls E s] by (simp add: PERIOD_def)

theorem only_pipe_failure_is_fatal_witness:
  \<open>PipeFails \<notin> set [StartFails, Starts [(''[{\<newline>"a"'', None)], StartFails]
   \<and> fst (run accepting start [StartFails, Starts [(''[{\<newline>"a"'', None)], StartFails]) \<noteq> Exited\<close>
  using only_pipe_failure_is_fatal
    [of accepting start 0 \<open>[StartFails, Starts [(''[{\<newline>"a"'', None)], StartFails]\<close>]
  by simp

theorem pipe_failure_counterexample:
  "run accepting start [PipeFails] = (Exited, [Launch, Fatal], start)"
  by simp

text \<open>
  C5. After any row of calls of \<^verbatim>\<open>decode\<close> that all return without error, the buffer is
  the last piece of the split of everything there was to resolve (the buffer before the
  first call, then all bytes read, less the preamble): it holds no separator, and what
  was to resolve ends with a separator followed by exactly the buffer. The next call
  resolves this buffer followed by its own reads, so no byte is lost or doubled between
  calls.
\<close>

theorem buffer_is_trailing_fragment:
  assumes "calls c n st (delivered chunks @ r1) = (Inr ents, st1, r1)" and "0 < n"
  shows "buf st1 = last (Split (seen st chunks) separator)
     \<and> Index (buf st1) separator = None
     \<and> (\<exists>pre. seen st chunks = pre @ separator @ buf st1)"
proof -
  from calls_Inr_chunks [OF assms]
  have l: "1 < length (Split (seen st chunks) separator)"
    and b: "buf st1 = last (Split (seen st chunks) separator)"
    by simp_all
  from Index_last_Split [OF separator_ne, of "seen st chunks"] b
  have "Index (buf st1) separator = None" by simp
  moreover from Split_suffix [OF separator_ne l] b
  have "\<exists>pre. seen st chunks = pre @ separator @ buf st1" by simp
  ultimately show ?thesis using b by simp
qed

theorem buffer_is_trailing_fragment_witness:
  \<open>calls Compact (Suc (Suc 0)) init
     (delivered [''[{'', ''\<newline>"a":1\<newline>}'', '',{\<newline>"b":2\<newline>},{'', ''\<newline>"c"''] @ []) =
   (Inr [new_entry ''{"a":1}'', new_entry ''{"b":2}''], \<lparr>buf = ''"c"'', first = False\<rparr>, [])
   \<and> ''"c"'' =
       last (Split (seen init [''[{'', ''\<newline>"a":1\<newline>}'', '',{\<newline>"b":2\<newline>},{'', ''\<newline>"c"'']) separator)
   \<and> Index ''"c"'' separator = None
   \<and> (\<exists>pre. seen init [''[{'', ''\<newline>"a":1\<newline>}'', '',{\<newline>"b":2\<newline>},{'', ''\<newline>"c"'']
          = pre @ separator @ ''"c"'')\<close>
  using buffer_is_trailing_fragment [OF calls_split_separator] calls_split_separator by simp

text \<open>
  C6, as amended. Two ways of cutting the same bytes into reads give the same entries, in
  the same order, and leave the same decoder state, whenever the calls of \<^verbatim>\<open>decode\<close> on
  each succeed and have consumed all of the bytes; this includes cuts through the
  separator. (A delivery in one read is not such a row: the call that takes it reads once
  more before it splits, and fails at the end of the stream.)
\<close>

theorem chunking_invariance:
  assumes "calls c n st (delivered chunks @ r1) = (Inr ents, st1, r1)" and "0 < n"
    and "calls c m st (delivered chunks' @ r1') = (Inr ents', st1', r1')" and "0 < m"
    and "concat chunks = concat chunks'"
  shows "ents = ents' \<and> st1 = st1'"
proof -
  from assms(5) have s: "seen st chunks = seen st chunks'" by (simp add: seen_def)
  from calls_Inr_chunks [OF assms(1,2)] calls_Inr_chunks [OF assms(3,4)] s
  have "ents = ents'" "buf st1 = buf st1'" "first st1 = first st1'" by simp_all
  then show ?thesis by simp
qed

theorem chunking_invariance_witness:
  \<open>calls Compact (Suc (Suc 0)) init
     (delivered [''[{'', ''\<newline>"a":1\<newline>}'', '',{\<newline>"b":2\<newline>},{'', ''\<newline>"c"''] @ []) =
   (Inr [new_entry ''{"a":1}'', new_entry ''{"b":2}''], \<lparr>buf = ''"c"'', first = False\<rparr>, [])
   \<and> calls Compact (Suc 0) init
     (delivered [''[{\<newline>'', ''"a":1\<newline>},{\<newline>"b":2\<newline>},{\<newline>"c"''] @ []) =
   (Inr [new_entry ''{"a":1}'', new_entry ''{"b":2}''], \<lparr>buf = ''"c"'', first = False\<rparr>, [])
   \<and> concat [''[{'', ''\<newline>"a":1\<newline>}'', '',{\<newline>"b":2\<newline>},{'', ''\<newline>"c"'']
       = concat [''[{\<newline>'', ''"a":1\<newline>},{\<newline>"b":2\<newline>},{\<newline>"c"'']\<close>
  using chunking_invariance [OF calls_split_separator _ calls_one_read]
    calls_split_separator calls_one_read
  by simp

theorem single_read_counterexample:
  \<open>fst (calls Compact (Suc 0) init [(''[{\<newline>"a":1\<newline>},{\<newline>"b":2\<newline>}]'', None)])
     = Inl (ReadError EOF)
   \<and> fst (calls Compact (Suc 0) init
            [(''[{\<newline>'', None), (''"a":1\<newline>},{\<newline>"b":2\<newline>}]'', None)])
     = Inr [new_entry ''{"a":1}'']\<close>
  by code_simp

text \<open>
  C7. A call of \<^verbatim>\<open>decode\<close> that returns a nil error returns at least one entry: the loop
  only leaves through \<^verbatim>\<open>break\<close> when the split has more than one piece, and every piece
  but the last has then become an entry. Read errors, the end of the stream among them,
  and compaction errors return \<^verbatim>\<open>nil\<close> entries with the error.
\<close>

theorem decode_never_empty:
  assumes "decode c st r = (Inr ents, st1, r1, t)"
  shows "ents \<noteq> []"
proof -
  from decode_Inr [OF assms]
  obtain chunks where "1 < length (Split (seen st chunks) separator)"
    and "consume c (butlast (Split (seen st chunks) separator)) = Some ents"
    by blast
  then have "length ents = length (Split (seen st chunks) separator) - 1"
    using consume_length [of c "butlast (Split (seen st chunks) separator)" ents] by simp
  with \<open>1 < length (Split (seen st chunks) separator)\<close> show ?thesis by auto
qed

theorem decode_never_empty_witness:
  \<open>decode Compact init
     [(''[{\<newline>'', None), (''"a":1\<newline>},{\<newline>"b":2\<newline>}]'', None)] =
   (Inr [new_entry ''{"a":1}''], \<lparr>buf = ''"b":2\<newline>}]'', first = False\<rparr>, [], 0)
   \<and> [new_entry ''{"a":1}''] \<noteq> []\<close>
  using decode_never_empty [OF decode_two_chunks] decode_two_chunks by simp

text \<open>
  C8. The first call of \<^verbatim>\<open>decode\<close>, on the initial state, reads until three bytes have
  arrived, sleeping \<open>READ_PERIOD\<close> after every read that leaves it short, drops exactly
  the first three bytes and goes on to extract records from a buffer that holds every
  byte beyond them. The flag is cleared from then on, so no later call drops anything:
  a call on a state with the flag cleared is the record loop alone and leaves it cleared.
\<close>

theorem preamble_consumed_once:
  assumes "length (concat chunks) < 3" and "3 \<le> length (concat chunks @ c)"
  shows "decode cp init (delivered chunks @ (c, None) # rest) =
     (case records_loop cp \<lparr>buf = drop 3 (concat chunks @ c), first = False\<rparr> rest of
        (res, st2, r2, t2) \<Rightarrow> (res, st2, r2, int (length chunks) * READ_PERIOD + t2))
   \<and> \<not> first (fst (snd (decode cp init (delivered chunks @ (c, None) # rest))))
   \<and> (\<forall>st r. \<not> first st \<longrightarrow>
         decode cp st r = records_loop cp st r \<and> \<not> first (fst (snd (decode cp st r))))"
proof -
  let ?st = "\<lparr>buf = drop 3 (concat chunks @ c), first = False\<rparr>"
  from assms have "preamble_loop init (delivered chunks @ (c, None) # rest) =
     (Inr (), init\<lparr>buf := drop 3 (buf init @ concat chunks @ c), first := False\<rparr>, rest,
      int (length chunks) * READ_PERIOD)"
    by (intro preamble_loop_delivered) (simp_all add: init_def)
  then have p: "preamble_loop init (delivered chunks @ (c, None) # rest) =
     (Inr (), ?st, rest, int (length chunks) * READ_PERIOD)"
    by (simp add: init_def)
  have d: "decode cp init (delivered chunks @ (c, None) # rest) =
     (case records_loop cp ?st rest of
        (res, st2, r2, t2) \<Rightarrow> (res, st2, r2, int (length chunks) * READ_PERIOD + t2))"
    by (simp add: decode_def p) (simp add: init_def)
  obtain res st2 r2 t2 where rl: "records_loop cp ?st rest = (res, st2, r2, t2)"
    by (cases "records_loop cp ?st rest") auto
  with records_loop_first [of cp ?st rest] have "\<not> first st2" by simp
  with rl have f: "\<not> first (fst (snd (decode cp init (delivered chunks @ (c, None) # rest))))"
    unfolding d by simp
  have "\<forall>st r. \<not> first st \<longrightarrow>
         decode cp st r = records_loop cp st r \<and> \<not> first (fst (snd (decode cp st r)))"
    by (simp add: decode_def records_loop_first)
  with d f show ?thesis by blast
qed

theorem preamble_consumed_once_witness:
  \<open>length (concat [''['', ''{'']) < 3
   \<and> 3 \<le> length (concat [''['', ''{''] @ ''\<newline>"a"'')
   \<and> decode Compact init
        (delivered [''['', ''{''] @ (''\<newline>"a"'', None) # [('':1\<newline>},{\<newline>"b"'', None)]) =
      (Inr [new_entry ''{"a":1}''], \<lparr>buf = ''"b"'', first = False\<rparr>, [], 2 * READ_PERIOD)\<close>
proof -
  have a: \<open>length (concat [''['', ''{'']) < 3\<close> by simp
  have b: \<open>3 \<le> length (concat [''['', ''{''] @ ''\<newline>"a"'')\<close> by simp
  have r: \<open>records_loop Compact \<lparr>buf = drop 3 (concat [''['', ''{''] @ ''\<newline>"a"''), first = False\<rparr>
             [('':1\<newline>},{\<newline>"b"'', None)] =
           (Inr [new_entry ''{"a":1}''], \<lparr>buf = ''"b"'', first = False\<rparr>, [], 0)\<close>
    by code_simp
  from preamble_consumed_once [OF a b, of Compact \<open>[('':1\<newline>},{\<newline>"b"'', None)]\<close>] a b
  show ?thesis unfolding r by simp
qed

text \<open>
  C9. A read that returns bytes together with an error makes \<^verbatim>\<open>decode\<close> return that
  error at once, in either loop, with the state as it was; and at whatever read of a call
  the failure comes, its bytes never reach the buffer: the call ends with the same result,
  state and sleeping time as on the script with the bytes of the failed reads left out.
\<close>

theorem failed_read_bytes_discarded:
  "decode c st ((bs, Some e) # r) = (Inl (ReadError e), st, r, 0)
   \<and> decode c st (without_failed_bytes r') =
       (case decode c st r' of (res, st1, r1, t) \<Rightarrow> (res, st1, without_failed_bytes r1, t))"
proof
  show "decode c st ((bs, Some e) # r) = (Inl (ReadError e), st, r, 0)"
    by (simp add: decode_def)
  show "decode c st (without_failed_bytes r') =
       (case decode c st r' of (res, st1, r1, t) \<Rightarrow> (res, st1, without_failed_bytes r1, t))"
    by (simp add: decode_def preamble_loop_without_failed_bytes
          records_loop_without_failed_bytes split: prod.splits sum.splits)
qed

text \<open>
  C10. When \<^verbatim>\<open>decode\<close> fails because a fragment does not compact, the buffer is what it
  had to resolve, whole: what the buffer held before the call and every byte the call has
  read (less the preamble, if this call stripped it). Its split has more than one piece,
  among them the pieces already turned into entries, and some piece but the last fails
  to compact.
\<close>

theorem syntax_error_keeps_buffer:
  assumes "decode c st r = (Inl SyntaxError, st1, r1, t)"
  shows "\<exists>chunks. r = delivered chunks @ r1 \<and> chunks \<noteq> []
     \<and> buf st1 = seen st chunks
     \<and> 1 < length (Split (buf st1) separator)
     \<and> consume c (butlast (Split (buf st1) separator)) = None"
  using decode_SyntaxError [OF assms] by blast

theorem syntax_error_keeps_buffer_witness:
  \<open>decode Compact init
     [(''[{\<newline>'', None), (''"a":1\<newline>},{\<newline>xx\<newline>},{\<newline>'', None)] =
   (Inl SyntaxError, \<lparr>buf = ''"a":1\<newline>},{\<newline>xx\<newline>},{\<newline>'', first = False\<rparr>, [], 0)
   \<and> (\<exists>chunks.
         [(''[{\<newline>'', None), (''"a":1\<newline>},{\<newline>xx\<newline>},{\<newline>'', None)] = delivered chunks @ []
       \<and> chunks \<noteq> []
       \<and> buf \<lparr>buf = ''"a":1\<newline>},{\<newline>xx\<newline>},{\<newline>'', first = False\<rparr> = seen init chunks
       \<and> 1 < length (Split (buf \<lparr>buf = ''"a":1\<newline>},{\<newline>xx\<newline>},{\<newline>'', first = False\<rparr>) separator)
       \<and> consume Compact
            (butlast (Split (buf \<lparr>buf = ''"a":1\<newline>},{\<newline>xx\<newline>},{\<newline>'', first = False\<rparr>) separator))
           = None)\<close>
  using syntax_error_keeps_buffer [OF decode_bad_fragment] decode_bad_fragment by blast

end
